theory Spec2Isabelle
  imports Complex_Main "HOL-Library.Signed_Division"
begin

section \<open>The game of \<^verbatim>\<open>main.go\<close>\<close>

text \<open>
  The program is one Go file: a \<^verbatim>\<open>Game\<close> struct, its \<^verbatim>\<open>Update\<close>, \<^verbatim>\<open>Draw\<close> and
  \<^verbatim>\<open>Reset\<close> methods, the constructor \<^verbatim>\<open>NewPillar\<close> and \<^verbatim>\<open>main\<close>.

  Conventions of the embedding:
  \<^item> Go's \<^verbatim>\<open>int\<close> is \<open>int\<close>. Between ticks the pillars of \<^verbatim>\<open>g.pillars\<close> have
    \<open>x\<close> in \<open>[-200, 637]\<close> and \<open>y\<close> in \<open>[0, 230)\<close> in every reachable state (lemma
    \<open>reachable_invar\<close>); the frame counter and the score grow by at most one per tick
    (lemma \<open>counters_grow_slowly\<close>), so they need \<open>2^63\<close> ticks to leave the range of a
    64-bit \<^verbatim>\<open>int\<close>. The remainder \<^verbatim>\<open>%\<close> is Go's truncated one, \<open>smod\<close>, and the
    division of constants is \<open>sdiv\<close>.
  \<^item> Go's \<^verbatim>\<open>float64\<close> is \<open>real\<close>: the statements below use the same operations as the
    code (one addition, one comparison with a converted integer) and say nothing about
    rounding.
  \<^item> \<^verbatim>\<open>g.pillars\<close> is a slice of pointers, \<^verbatim>\<open>[]*Pillar\<close>, and the loop of \<^verbatim>\<open>Update\<close>
    writes through these pointers while it reslices \<^verbatim>\<open>g.pillars\<close>. Pointers are
    addresses into an explicit store (field \<open>heap\<close>, the pillar objects allocated so far;
    an address is an index into it), so that sharing between the slice being ranged over
    and \<^verbatim>\<open>g.pillars\<close> is kept.
  \<^item> A run-time panic (dereferencing a pointer that points to no pillar, reslicing an
    empty slice with \<^verbatim>\<open>[1:]\<close>) is the result \<open>None\<close>.
  \<^item> The keys that \<^verbatim>\<open>ebiten.IsKeyPressed\<close> reports during one tick and the number
    that \<^verbatim>\<open>rand.Intn\<close> returns if it is called in that tick are the tick's input.
  \<^item> The mutex \<^verbatim>\<open>mu\<close> is taken by \<^verbatim>\<open>Draw\<close> only and guards nothing in a sequential
    model; it is left out.
\<close>

subsection \<open>Constants\<close>

definition screenWidth :: int where "screenWidth = 640"
definition screenHeight :: int where "screenHeight = 630"
definition birdSize :: int where "birdSize = 40"
definition pillarWidth :: int where "pillarWidth = 200"
definition pillarGap :: int where "pillarGap = 200"
definition pillarSpeed :: int where "pillarSpeed = 3"

subsection \<open>Data\<close>

type_synonym addr = nat

record Pillar =
  x :: int
  y :: int

record Game =
  birdY :: real
  birdDY :: real
  pillars :: "addr list"
  frameCount :: int
  isGameOver :: bool
  score :: int
  started :: bool
  heap :: "Pillar list"

record Input =
  keySpace :: bool
  keyArrowUp :: bool
  keyEnter :: bool
  randIntn :: int

text \<open>\<^verbatim>\<open>rand.Intn(n)\<close> returns a number in \<open>[0, n)\<close>; here \<open>n\<close> is
  \<^verbatim>\<open>screenHeight - pillarGap - pillarWidth\<close>.\<close>

definition valid_input :: "Input \<Rightarrow> bool" where
  "valid_input i \<longleftrightarrow>
     0 \<le> randIntn i \<and> randIntn i < screenHeight - pillarGap - pillarWidth"

text \<open>Reading through a pointer: an address outside the store holds no pillar.\<close>

definition deref :: "Pillar list \<Rightarrow> addr \<Rightarrow> Pillar option" where
  "deref h a = (if a < length h then Some (h ! a) else None)"

text \<open>The pillars of a state, in the order of \<^verbatim>\<open>g.pillars\<close>, read through the pointers.\<close>

definition pillar_seq :: "Game \<Rightarrow> Pillar list" where
  "pillar_seq g = map (\<lambda>a. heap g ! a) (pillars g)"

subsection \<open>\<^verbatim>\<open>NewPillar\<close>, \<^verbatim>\<open>Reset\<close> and the state built by \<^verbatim>\<open>main\<close>\<close>

text \<open>\<open>NewPillar r\<close> is the object that \<^verbatim>\<open>NewPillar()\<close> builds when \<^verbatim>\<open>rand.Intn\<close>
  returns \<open>r\<close>; the caller stores it at a fresh address.\<close>

definition NewPillar :: "int \<Rightarrow> Pillar" where
  "NewPillar r =
     (let x0 = screenWidth;
          y0 = r;
          y1 = (if y0 < 0 then 0 else y0)
      in \<lparr>x = x0, y = y1\<rparr>)"

definition Reset :: "Game \<Rightarrow> Game" where
  "Reset g = g\<lparr>birdY := of_int (screenHeight sdiv 2),
               birdDY := 0,
               pillars := [],
               frameCount := 0,
               isGameOver := False,
               score := 0,
               started := False\<rparr>"

text \<open>\<^verbatim>\<open>main\<close> builds \<^verbatim>\<open>&Game{pillars: []*Pillar{}}\<close>: every other field has Go's zero
  value, and no pillar has been allocated.\<close>

definition newGame :: Game where
  "newGame = \<lparr>birdY = 0, birdDY = 0, pillars = [], frameCount = 0, isGameOver = False,
              score = 0, started = False, heap = []\<rparr>"

subsection \<open>\<^verbatim>\<open>Update\<close>\<close>

text \<open>The body of \<^verbatim>\<open>for _, pillar := range g.pillars\<close> for the pointer \<open>a\<close>.\<close>

definition pillar_body :: "addr \<Rightarrow> Game \<Rightarrow> Game option" where
  "pillar_body a g =
     (case deref (heap g) a of
        None \<Rightarrow> None
      | Some p \<Rightarrow>
          let p' = p\<lparr>x := x p - pillarSpeed\<rparr>;
              g1 = g\<lparr>heap := (heap g)[a := p']\<rparr>
          in if x p' < - pillarWidth \<and> pillars g1 = [] then None
             else
               let g2 = (if x p' < - pillarWidth
                         then g1\<lparr>pillars := tl (pillars g1), score := score g1 + 1\<rparr>
                         else g1);
                   g3 = (if birdY g2 < of_int (y p') \<or> birdY g2 > of_int (y p' + pillarGap)
                         then (if x p' < birdSize \<and> x p' > - pillarWidth
                               then g2\<lparr>isGameOver := True\<rparr>
                               else g2)
                         else g2)
               in Some g3)"

text \<open>The loop: Go evaluates the range expression once, so the loop runs over the
  pointers that \<^verbatim>\<open>g.pillars\<close> held when the loop began, whatever the body then does to
  \<^verbatim>\<open>g.pillars\<close>.\<close>

fun range_pillars :: "addr list \<Rightarrow> Game \<Rightarrow> Game option" where
  "range_pillars [] g = Some g"
| "range_pillars (a # as) g =
     (case pillar_body a g of None \<Rightarrow> None | Some g' \<Rightarrow> range_pillars as g')"

definition Update :: "Input \<Rightarrow> Game \<Rightarrow> Game option" where
  "Update i g =
     (let g1 = (if \<not> isGameOver g \<and> \<not> started g
                then (if keySpace i \<or> keyArrowUp i then g\<lparr>started := True\<rparr> else g)
                else g)
      in case (if started g1 \<and> \<not> isGameOver g1
               then
                 let g2 = g1\<lparr>birdDY := birdDY g1 + 0.1\<rparr>;
                     g3 = (if keySpace i \<or> keyArrowUp i then g2\<lparr>birdDY := - 2\<rparr> else g2);
                     g4 = g3\<lparr>birdY := birdY g3 + birdDY g3\<rparr>;
                     g5 = g4\<lparr>frameCount := frameCount g4 + 1\<rparr>;
                     g6 = (if frameCount g5 smod (screenWidth sdiv pillarSpeed) = 0
                           then g5\<lparr>pillars := pillars g5 @ [length (heap g5)],
                                   heap := heap g5 @ [NewPillar (randIntn i)]\<rparr>
                           else g5)
                 in range_pillars (pillars g6) g6
               else Some g1) of
           None \<Rightarrow> None
         | Some g7 \<Rightarrow> Some (if isGameOver g7 \<and> keyEnter i then Reset g7 else g7))"

text \<open>A sequence of ticks, one input each; a panic ends the run.\<close>

fun run :: "Input list \<Rightarrow> Game \<Rightarrow> Game option" where
  "run [] g = Some g"
| "run (i # is) g = (case Update i g of None \<Rightarrow> None | Some g' \<Rightarrow> run is g')"

subsection \<open>\<^verbatim>\<open>Draw\<close>\<close>

text \<open>\<^verbatim>\<open>Draw\<close> changes no field; what it does is the list of calls it makes on the screen.
  A \<^verbatim>\<open>GeoM\<close> that is only ever translated is the pair of its offsets, and
  \<^verbatim>\<open>DrawImage\<close> puts the upper left corner of the image at these offsets. The two
  images are opaque: only their names are known here.\<close>

datatype Image = birdImage | pillarImage

datatype Text = Str string | Sprintf string int

type_synonym GeoM = "real \<times> real"

datatype DrawOp =
    Fill nat nat nat nat
  | DrawImage Image GeoM
  | DebugPrint Text

definition Translate :: "GeoM \<Rightarrow> real \<Rightarrow> real \<Rightarrow> GeoM" where
  "Translate m tx ty = (fst m + tx, snd m + ty)"

text \<open>The body of the loop of \<^verbatim>\<open>Draw\<close> for one pillar.\<close>

definition draw_pillar :: "Pillar \<Rightarrow> DrawOp list" where
  "draw_pillar p =
     (let op0 = (0, 0);
          op1 = Translate op0 (of_int (x p)) (of_int (y p));
          d1 = DrawImage pillarImage op1;
          op2 = Translate op1 0 (of_int pillarGap + of_int pillarWidth);
          d2 = DrawImage pillarImage op2
      in [d1, d2])"

fun draw_pillars :: "Pillar list \<Rightarrow> addr list \<Rightarrow> DrawOp list option" where
  "draw_pillars h [] = Some []"
| "draw_pillars h (a # as) =
     (case deref h a of
        None \<Rightarrow> None
      | Some p \<Rightarrow>
          (case draw_pillars h as of
             None \<Rightarrow> None
           | Some ds \<Rightarrow> Some (draw_pillar p @ ds)))"

definition Draw :: "Game \<Rightarrow> DrawOp list option" where
  "Draw g =
     (case draw_pillars (heap g) (pillars g) of
        None \<Rightarrow> None
      | Some ds \<Rightarrow>
          Some ([Fill 75 145 201 1,
                 DrawImage birdImage (Translate (0, 0) 50 (birdY g))]
                @ ds
                @ [DebugPrint (Sprintf ''Score: %d'' (score g))]
                @ (if \<not> started g
                   then [DebugPrint (Str ''Press Space or Up Arrow to Start'')] else [])
                @ (if isGameOver g
                   then [DebugPrint (Str ''GAME OVER. Press Enter to Restart'')] else [])))"

subsection \<open>Notions used in the statements\<close>

text \<open>The jump input: \<^verbatim>\<open>Space\<close> or \<^verbatim>\<open>ArrowUp\<close> is down.\<close>

definition jump :: "Input \<Rightarrow> bool" where
  "jump i \<longleftrightarrow> keySpace i \<or> keyArrowUp i"

text \<open>The three states of the machine, read off the two flags.\<close>

definition waiting :: "Game \<Rightarrow> bool" where
  "waiting g \<longleftrightarrow> \<not> started g \<and> \<not> isGameOver g"

definition playing :: "Game \<Rightarrow> bool" where
  "playing g \<longleftrightarrow> started g \<and> \<not> isGameOver g"

text \<open>Every pointer of \<^verbatim>\<open>g.pillars\<close> points to a pillar, and no two of them to the same
  one: \<^verbatim>\<open>NewPillar\<close> allocates, and nothing else ever writes a pointer.\<close>

definition wf_game :: "Game \<Rightarrow> bool" where
  "wf_game g \<longleftrightarrow> distinct (pillars g) \<and> (\<forall>a\<in>set (pillars g). a < length (heap g))"

text \<open>The states that the program can be in: the one built by \<^verbatim>\<open>main\<close>, and those that
  \<^verbatim>\<open>Update\<close> returns from a reachable one on some input.\<close>

inductive reachable :: "Game \<Rightarrow> bool" where
  reachable_init: "reachable newGame"
| reachable_step:
    "reachable g \<Longrightarrow> valid_input i \<Longrightarrow> Update i g = Some g' \<Longrightarrow> reachable g'"

text \<open>One step of the loop on one pillar, in three parts: the move to the left, the test
  for removal, the test for collision with the bird at height \<open>b\<close>.\<close>

definition advance :: "Pillar \<Rightarrow> Pillar" where
  "advance p = p\<lparr>x := x p - pillarSpeed\<rparr>"

definition crossed :: "Pillar \<Rightarrow> bool" where
  "crossed p \<longleftrightarrow> x p < - pillarWidth"

definition hits :: "real \<Rightarrow> Pillar \<Rightarrow> bool" where
  "hits b p \<longleftrightarrow>
     (b < of_int (y p) \<or> b > of_int (y p + pillarGap)) \<and> x p < birdSize \<and> x p > - pillarWidth"

fun advance_all :: "addr list \<Rightarrow> Pillar list \<Rightarrow> Pillar list" where
  "advance_all [] h = h"
| "advance_all (a # as) h = advance_all as (h[a := advance (h ! a)])"

text \<open>What a tick of the playing game does before the loop: whether a pillar is due, the
  pointers the loop ranges over, the store after the allocation, and the same pillars as
  values.\<close>

definition spawn_due :: "Game \<Rightarrow> bool" where
  "spawn_due g \<longleftrightarrow> (frameCount g + 1) smod (screenWidth sdiv pillarSpeed) = 0"

definition ranged :: "Game \<Rightarrow> addr list" where
  "ranged g = pillars g @ (if spawn_due g then [length (heap g)] else [])"

definition spawned :: "Input \<Rightarrow> Game \<Rightarrow> Pillar list" where
  "spawned i g = heap g @ (if spawn_due g then [NewPillar (randIntn i)] else [])"

definition seq_in :: "Input \<Rightarrow> Game \<Rightarrow> Pillar list" where
  "seq_in i g = pillar_seq g @ (if spawn_due g then [NewPillar (randIntn i)] else [])"

text \<open>The state at the end of the second \<^verbatim>\<open>if\<close> of \<^verbatim>\<open>Update\<close>, in closed form; lemma
  \<open>Update_playing\<close> shows that \<^verbatim>\<open>Update\<close> computes it.\<close>

definition play_tick :: "Input \<Rightarrow> Game \<Rightarrow> Game" where
  "play_tick i g =
     (let v = (if jump i then - 2 else birdDY g + 0.1);
          b = birdY g + v;
          k = length (filter (\<lambda>a. crossed (advance (spawned i g ! a))) (ranged g))
      in g\<lparr>birdY := b,
           birdDY := v,
           pillars := drop k (ranged g),
           frameCount := frameCount g + 1,
           isGameOver := (\<exists>a\<in>set (ranged g). hits b (advance (spawned i g ! a))),
           score := score g + int k,
           started := True,
           heap := advance_all (ranged g) (spawned i g)\<rparr>)"

text \<open>A tick of the playing game ends in a collision: the bird, after its own move, is
  outside the gap of a pillar that, after its move, overlaps the bird's column.\<close>

definition collides :: "Input \<Rightarrow> Game \<Rightarrow> bool" where
  "collides i g \<longleftrightarrow>
     (\<exists>p\<in>set (pillar_seq g).
        hits (birdY g + (if jump i then - 2 else birdDY g + 0.1)) (advance p))"

text \<open>The invariant of the reachable states.\<close>

definition invar :: "Game \<Rightarrow> bool" where
  "invar g \<longleftrightarrow>
     wf_game g \<and>
     sorted_wrt (\<lambda>p q. x p + pillarSpeed \<le> x q) (pillar_seq g) \<and>
     (\<forall>p\<in>set (pillar_seq g).
        - pillarWidth \<le> x p \<and> x p \<le> screenWidth - pillarSpeed \<and>
        0 \<le> y p \<and> y p < screenHeight - pillarGap - pillarWidth) \<and>
     0 \<le> frameCount g \<and> 0 \<le> score g \<and>
     (isGameOver g \<longrightarrow> started g) \<and>
     (\<not> started g \<longrightarrow> pillars g = [] \<and> frameCount g = 0 \<and> score g = 0 \<and> birdDY g = 0)"


subsection \<open>Stretches of uneventful ticks\<close>

text \<open>While no pillar is due, none leaves the screen and none is hit, \<open>n\<close> ticks with the
  jump key held move the bird up by \<open>2 n\<close>, and \<open>n\<close> ticks without it let it fall with
  the velocity growing by \<open>1/10\<close> per tick; the pillars of \<^verbatim>\<open>g.pillars\<close> move left by
  \<open>pillarSpeed * n\<close>. Lemmas \<open>glide_run\<close> and \<open>fall_run\<close> show that \<open>run\<close> computes these
  states.\<close>

definition shift_live :: "nat \<Rightarrow> Game \<Rightarrow> Pillar list" where
  "shift_live n g =
     map (\<lambda>j. if j \<in> set (pillars g)
              then (heap g ! j)\<lparr>x := x (heap g ! j) - pillarSpeed * int n\<rparr>
              else heap g ! j)
         [0..<length (heap g)]"

definition glide :: "nat \<Rightarrow> Game \<Rightarrow> Game" where
  "glide n g = g\<lparr>birdY := birdY g - 2 * real n,
                 birdDY := (if n = 0 then birdDY g else - 2),
                 frameCount := frameCount g + int n,
                 heap := shift_live n g\<rparr>"

definition fall :: "nat \<Rightarrow> Game \<Rightarrow> Game" where
  "fall n g = g\<lparr>birdY := birdY g + real n * birdDY g + real n * (real n + 1) / 20,
                birdDY := birdDY g + real n / 10,
                frameCount := frameCount g + int n,
                heap := shift_live n g\<rparr>"

subsection \<open>A concrete game\<close>

text \<open>Three inputs: the jump key held, no key, and the restart key alone;
  \<^verbatim>\<open>rand.Intn\<close> returns 7 whenever it is called.\<close>

definition hold :: Input where
  "hold = \<lparr>keySpace = True, keyArrowUp = False, keyEnter = False, randIntn = 7\<rparr>"

definition idle :: Input where
  "idle = \<lparr>keySpace = False, keyArrowUp = False, keyEnter = False, randIntn = 7\<rparr>"

definition confirm :: Input where
  "confirm = \<lparr>keySpace = False, keyArrowUp = False, keyEnter = True, randIntn = 7\<rparr>"

text \<open>A state of the playing game, given by the fields that vary.\<close>

definition playing_state ::
  "real \<Rightarrow> real \<Rightarrow> addr list \<Rightarrow> int \<Rightarrow> int \<Rightarrow> Pillar list \<Rightarrow> Game" where
  "playing_state b v ps fc sc h =
     \<lparr>birdY = b, birdDY = v, pillars = ps, frameCount = fc, isGameOver = False,
      score = sc, started = True, heap = h\<rparr>"

text \<open>The player holds the jump key for 271 ticks, lets the bird fall for 141 ticks, and
  holds the key again from tick 413 on. The first pillar appears at tick 213 and the bird
  passes through its gap; the second appears at tick 426, the first is removed at tick
  493, and the bird meets the second above its gap at tick 626. The states named here
  are those after 425, 492 and 625 ticks, and the two possible states after tick 626.\<close>

definition ticks_to_spawn :: "Input list" where
  "ticks_to_spawn = hold # replicate 211 hold @ [hold] @ replicate 58 hold
                    @ replicate 141 idle @ replicate 13 hold"

definition ticks_to_crossing :: "Input list" where
  "ticks_to_crossing = ticks_to_spawn @ [hold] @ replicate 66 hold"

definition ticks_to_collision :: "Input list" where
  "ticks_to_collision = ticks_to_crossing @ [hold] @ replicate 132 hold"

definition before_spawn :: Game where
  "before_spawn = playing_state (1511 / 10) (- 2) [0] 425 0 [\<lparr>x = 1, y = 7\<rparr>]"

definition before_crossing :: Game where
  "before_crossing =
     playing_state (171 / 10) (- 2) [0, 1] 492 0 [\<lparr>x = - 200, y = 7\<rparr>, \<lparr>x = 439, y = 7\<rparr>]"

definition before_collision :: Game where
  "before_collision =
     playing_state (- 2489 / 10) (- 2) [1] 625 1 [\<lparr>x = - 203, y = 7\<rparr>, \<lparr>x = 40, y = 7\<rparr>]"

definition crashed :: Game where
  "crashed =
     (playing_state (- 2509 / 10) (- 2) [1] 626 1 [\<lparr>x = - 203, y = 7\<rparr>, \<lparr>x = 37, y = 7\<rparr>])
       \<lparr>isGameOver := True\<rparr>"

definition restarted :: Game where
  "restarted =
     \<lparr>birdY = 315, birdDY = 0, pillars = [], frameCount = 0, isGameOver = False, score = 0,
      started = False, heap = [\<lparr>x = - 203, y = 7\<rparr>, \<lparr>x = 37, y = 7\<rparr>]\<rparr>"

section \<open>Lemmas\<close>

lemmas const_defs = screenWidth_def screenHeight_def birdSize_def pillarWidth_def
  pillarGap_def pillarSpeed_def

subsection \<open>The loop over the pillars\<close>

lemma length_advance_all [simp]: "length (advance_all as h) = length h"
  by (induction as arbitrary: h) auto

lemma nth_advance_all:
  "distinct as \<Longrightarrow> j < length h \<Longrightarrow>
   advance_all as h ! j = (if j \<in> set as then advance (h ! j) else h ! j)"
proof (induction as arbitrary: h)
  case Nil
  then show ?case by simp
next
  case (Cons a as)
  have "advance_all as (h[a := advance (h ! a)]) ! j =
        (if j \<in> set as then advance (h[a := advance (h ! a)] ! j)
         else h[a := advance (h ! a)] ! j)"
    using Cons.prems by (intro Cons.IH) simp_all
  moreover have "j \<in> set as \<Longrightarrow> j \<noteq> a"
    using Cons.prems by auto
  ultimately show ?case
    using Cons.prems by (auto simp: nth_list_update)
qed

lemma pillar_body_eq:
  assumes "a < length (heap g)" and "pillars g \<noteq> []"
  shows "pillar_body a g =
    Some (g\<lparr>heap := (heap g)[a := advance (heap g ! a)],
            pillars := (if crossed (advance (heap g ! a)) then tl (pillars g) else pillars g),
            score := score g + (if crossed (advance (heap g ! a)) then 1 else 0),
            isGameOver := isGameOver g \<or> hits (birdY g) (advance (heap g ! a))\<rparr>)"
  using assms
  by (auto simp: pillar_body_def deref_def advance_def crossed_def hits_def Let_def
           intro!: Game.equality)

lemma range_pillars_eq:
  assumes "distinct as" and "\<forall>a\<in>set as. a < length (heap g)"
    and "length as \<le> length (pillars g)"
  shows "range_pillars as g =
    Some (g\<lparr>heap := advance_all as (heap g),
            pillars := drop (length (filter (\<lambda>a. crossed (advance (heap g ! a))) as)) (pillars g),
            score := score g + int (length (filter (\<lambda>a. crossed (advance (heap g ! a))) as)),
            isGameOver := isGameOver g \<or> (\<exists>a\<in>set as. hits (birdY g) (advance (heap g ! a)))\<rparr>)"
  using assms
proof (induction as arbitrary: g)
  case Nil
  then show ?case by simp
next
  case (Cons a as)
  let ?g1 = "g\<lparr>heap := (heap g)[a := advance (heap g ! a)],
            pillars := (if crossed (advance (heap g ! a)) then tl (pillars g) else pillars g),
            score := score g + (if crossed (advance (heap g ! a)) then 1 else 0),
            isGameOver := isGameOver g \<or> hits (birdY g) (advance (heap g ! a))\<rparr>"
  from Cons.prems have a: "a < length (heap g)" and ne: "pillars g \<noteq> []" by auto
  have step: "pillar_body a g = Some ?g1" by (rule pillar_body_eq [OF a ne])
  have same: "\<And>b. b \<in> set as \<Longrightarrow> heap ?g1 ! b = heap g ! b"
  proof -
    fix b assume "b \<in> set as"
    with Cons.prems(1) have "a \<noteq> b" by auto
    then show "heap ?g1 ! b = heap g ! b" by simp
  qed
  have filt: "filter (\<lambda>b. crossed (advance (heap ?g1 ! b))) as
            = filter (\<lambda>b. crossed (advance (heap g ! b))) as"
    using same by (intro filter_cong) (simp_all del: Game.simps)
  have ex: "(\<exists>b\<in>set as. hits (birdY ?g1) (advance (heap ?g1 ! b)))
          = (\<exists>b\<in>set as. hits (birdY g) (advance (heap g ! b)))"
    using same by simp
  have ih: "range_pillars as ?g1 =
    Some (?g1\<lparr>heap := advance_all as (heap ?g1),
            pillars := drop (length (filter (\<lambda>a. crossed (advance (heap ?g1 ! a))) as)) (pillars ?g1),
            score := score ?g1 + int (length (filter (\<lambda>a. crossed (advance (heap ?g1 ! a))) as)),
            isGameOver := isGameOver ?g1 \<or> (\<exists>a\<in>set as. hits (birdY ?g1) (advance (heap ?g1 ! a)))\<rparr>)"
    apply (rule Cons.IH)
    using Cons.prems by (auto simp: Suc_le_eq split: if_splits)
  show ?case
    unfolding range_pillars.simps step option.case ih filt ex
    by (auto simp: drop_Suc tl_drop)
qed

subsection \<open>\<^verbatim>\<open>Update\<close> in closed form\<close>

lemma Update_over: "isGameOver g \<Longrightarrow> Update i g = Some (if keyEnter i then Reset g else g)"
  by (simp add: Update_def)

lemma Update_waiting: "waiting g \<Longrightarrow> \<not> jump i \<Longrightarrow> Update i g = Some g"
  by (simp add: Update_def waiting_def jump_def)

lemma wf_ranged:
  assumes "wf_game g"
  shows "distinct (ranged g)" and "\<forall>a\<in>set (ranged g). a < length (spawned i g)"
    and "length (spawned i g) = length (heap g) + (if spawn_due g then 1 else 0)"
  using assms by (auto simp: wf_game_def ranged_def spawned_def less_Suc_eq)

lemma Update_playing:
  assumes "wf_game g" and "\<not> isGameOver g" and "started g \<or> jump i"
  shows "Update i g =
    Some (if isGameOver (play_tick i g) \<and> keyEnter i then Reset (play_tick i g)
          else play_tick i g)"
proof -
  let ?v = "if jump i then - 2 else birdDY g + 0.1"
  let ?g6 = "g\<lparr>started := True, birdDY := ?v, birdY := birdY g + ?v,
               frameCount := frameCount g + 1,
               pillars := ranged g, heap := spawned i g\<rparr>"
  have loop: "range_pillars (pillars ?g6) ?g6 = Some (play_tick i g)"
    using wf_ranged(1) [OF assms(1)] wf_ranged(2,3) [OF assms(1), of i] assms(2)
    by (subst range_pillars_eq) (auto simp: play_tick_def Let_def intro!: Game.equality)
  have "Update i g =
     (case range_pillars (pillars ?g6) ?g6 of None \<Rightarrow> None
      | Some g7 \<Rightarrow> Some (if isGameOver g7 \<and> keyEnter i then Reset g7 else g7))"
    using assms(2,3)
    by (auto simp: Update_def Let_def jump_def spawn_due_def ranged_def spawned_def
             intro!: arg_cong [where f = "case_option _ _"] arg_cong2 [where f = range_pillars] Game.equality)
  then show ?thesis unfolding loop by simp
qed

subsection \<open>The pillars as values, and the invariant\<close>

lemma spawned_nth_ranged:
  assumes "wf_game g"
  shows "map (\<lambda>a. spawned i g ! a) (ranged g) = seq_in i g"
proof -
  have "map (\<lambda>a. spawned i g ! a) (pillars g) = pillar_seq g"
    using assms by (auto simp: wf_game_def spawned_def pillar_seq_def nth_append)
  then show ?thesis
    by (simp add: ranged_def seq_in_def) (simp add: spawned_def)
qed

lemma advanced_nth_ranged:
  assumes "wf_game g"
  shows "map (\<lambda>a. advance_all (ranged g) (spawned i g) ! a) (ranged g)
         = map advance (seq_in i g)"
proof -
  have "map (\<lambda>a. advance_all (ranged g) (spawned i g) ! a) (ranged g)
        = map (\<lambda>a. advance (spawned i g ! a)) (ranged g)"
    using wf_ranged(1) [OF assms] wf_ranged(2) [OF assms, of i]
    by (intro map_cong) (simp_all add: nth_advance_all)
  also have "\<dots> = map advance (map (\<lambda>a. spawned i g ! a) (ranged g))"
    by simp
  finally show ?thesis by (simp only: spawned_nth_ranged [OF assms])
qed

lemma crossed_count:
  assumes "wf_game g"
  shows "length (filter (\<lambda>a. crossed (advance (spawned i g ! a))) (ranged g))
         = length (filter crossed (map advance (seq_in i g)))"
proof -
  have "filter crossed (map advance (map (\<lambda>a. spawned i g ! a) (ranged g)))
        = map (\<lambda>a. advance (spawned i g ! a)) (filter (\<lambda>a. crossed (advance (spawned i g ! a))) (ranged g))"
    by (simp add: filter_map comp_def)
  then show ?thesis
    by (simp only: spawned_nth_ranged [OF assms] length_map)
qed

lemma pillar_seq_play_tick:
  assumes "wf_game g"
  shows "pillar_seq (play_tick i g)
         = drop (length (filter crossed (map advance (seq_in i g)))) (map advance (seq_in i g))"
proof -
  have "pillar_seq (play_tick i g)
        = drop (length (filter (\<lambda>a. crossed (advance (spawned i g ! a))) (ranged g)))
            (map (\<lambda>a. advance_all (ranged g) (spawned i g) ! a) (ranged g))"
    by (simp add: pillar_seq_def play_tick_def Let_def drop_map)
  then show ?thesis
    by (simp only: advanced_nth_ranged [OF assms] crossed_count [OF assms])
qed

lemma score_play_tick:
  assumes "wf_game g"
  shows "score (play_tick i g)
         = score g + int (length (filter crossed (map advance (seq_in i g))))"
  using crossed_count [OF assms, of i] by (simp add: play_tick_def Let_def)

lemma isGameOver_play_tick:
  assumes "wf_game g"
  shows "isGameOver (play_tick i g) \<longleftrightarrow>
         (\<exists>p\<in>set (seq_in i g). hits (birdY (play_tick i g)) (advance p))"
proof -
  have "(\<exists>a\<in>set (ranged g). hits b (advance (spawned i g ! a)))
        \<longleftrightarrow> (\<exists>p\<in>set (map (\<lambda>a. spawned i g ! a) (ranged g)). hits b (advance p))" for b
    by auto
  then show ?thesis
    by (simp only: spawned_nth_ranged [OF assms]) (simp add: play_tick_def Let_def)
qed

lemma play_tick_simps [simp]:
  "birdDY (play_tick i g) = (if jump i then - 2 else birdDY g + 0.1)"
  "birdY (play_tick i g) = birdY g + (if jump i then - 2 else birdDY g + 0.1)"
  "frameCount (play_tick i g) = frameCount g + 1"
  "started (play_tick i g)"
  "length (heap (play_tick i g)) = length (heap g) + (if spawn_due g then 1 else 0)"
  "pillars (play_tick i g) =
     drop (length (filter (\<lambda>a. crossed (advance (spawned i g ! a))) (ranged g))) (ranged g)"
  by (simp_all add: play_tick_def Let_def spawned_def)

lemma wf_play_tick:
  assumes "wf_game g"
  shows "wf_game (play_tick i g)"
proof -
  have "set (pillars (play_tick i g)) \<subseteq> set (ranged g)"
    by (simp add: set_drop_subset)
  moreover have "distinct (pillars (play_tick i g))"
    using wf_ranged(1) [OF assms] by simp
  ultimately show ?thesis
    using wf_ranged(2) [OF assms, of i] wf_ranged(3) [OF assms, of i]
    by (auto simp: wf_game_def simp del: play_tick_simps(6))
qed

lemma crossed_prefix:
  assumes "sorted_wrt (\<lambda>p q. x p + pillarSpeed \<le> x q) ps"
  shows "drop (length (filter crossed ps)) ps = filter (\<lambda>p. \<not> crossed p) ps"
  using assms
proof (induction ps)
  case Nil
  then show ?case by simp
next
  case (Cons p ps)
  show ?case
  proof (cases "crossed p")
    case True
    with Cons show ?thesis by simp
  next
    case False
    with Cons.prems have "\<forall>q\<in>set ps. \<not> crossed q"
      by (auto simp: crossed_def pillarSpeed_def)
    then have "filter crossed ps = []" and "filter (\<lambda>p. \<not> crossed p) ps = ps"
      by (simp_all add: filter_empty_conv filter_id_conv)
    with False show ?thesis by simp
  qed
qed

lemma Reset_invar: "invar (Reset g)"
  by (simp add: invar_def Reset_def wf_game_def pillar_seq_def)

lemma NewPillar_simps:
  "x (NewPillar r) = screenWidth" "y (NewPillar r) = (if r < 0 then 0 else r)"
  by (simp_all add: NewPillar_def Let_def)

lemma play_tick_invar:
  assumes "invar g" and "valid_input i"
  shows "invar (play_tick i g)"
proof -
  let ?R = "\<lambda>p q. x p + pillarSpeed \<le> x q"
  let ?L = "map advance (seq_in i g)"
  from assms(1) have wf: "wf_game g" by (simp add: invar_def)
  have seq: "pillar_seq (play_tick i g) = drop (length (filter crossed ?L)) ?L"
    by (rule pillar_seq_play_tick [OF wf])
  have sorted_in: "sorted_wrt ?R (seq_in i g)"
    using assms(1)
    by (auto simp: invar_def seq_in_def sorted_wrt_append NewPillar_simps)
  moreover have "(\<lambda>p q. x (advance p) + pillarSpeed \<le> x (advance q)) = ?R"
    by (auto simp: advance_def fun_eq_iff)
  ultimately have sorted_L: "sorted_wrt ?R ?L"
    by (simp only: sorted_wrt_map)
  have bounds_in: "\<forall>p\<in>set (seq_in i g). - pillarWidth \<le> x p \<and> x p \<le> screenWidth \<and>
        0 \<le> y p \<and> y p < screenHeight - pillarGap - pillarWidth"
    using assms by (auto simp: invar_def seq_in_def NewPillar_simps valid_input_def const_defs)
  have seq': "pillar_seq (play_tick i g) = filter (\<lambda>p. \<not> crossed p) ?L"
    unfolding seq by (rule crossed_prefix [OF sorted_L])
  have "sorted_wrt ?R (pillar_seq (play_tick i g))"
    unfolding seq using sorted_L by (rule sorted_wrt_drop)
  moreover have "\<forall>p\<in>set (pillar_seq (play_tick i g)).
        - pillarWidth \<le> x p \<and> x p \<le> screenWidth - pillarSpeed \<and>
        0 \<le> y p \<and> y p < screenHeight - pillarGap - pillarWidth"
    unfolding seq' using bounds_in by (auto simp: crossed_def advance_def)
  moreover have "0 \<le> score (play_tick i g)"
    using assms(1) by (simp add: score_play_tick [OF wf] invar_def)
  ultimately show ?thesis
    using assms(1) wf_play_tick [OF wf, of i]
    by (simp add: invar_def del: play_tick_simps(6))
qed

lemma Update_invar:
  assumes "invar g" and "valid_input i" and "Update i g = Some g'"
  shows "invar g'"
proof (cases "isGameOver g")
  case True
  with assms show ?thesis
    by (auto simp: Update_over Reset_invar split: if_splits)
next
  case over: False
  show ?thesis
  proof (cases "started g \<or> jump i")
    case True
    from assms(1) have "wf_game g" by (simp add: invar_def)
    from Update_playing [OF this over True] assms(3) play_tick_invar [OF assms(1,2)]
    show ?thesis by (auto simp: Reset_invar split: if_splits)
  next
    case False
    with over assms show ?thesis by (simp add: Update_waiting waiting_def)
  qed
qed

lemma newGame_invar: "invar newGame"
  by (simp add: invar_def newGame_def wf_game_def pillar_seq_def)

lemma reachable_invar: "reachable g \<Longrightarrow> invar g"
  by (induction rule: reachable.induct) (auto intro: newGame_invar Update_invar)

lemma Update_total:
  assumes "wf_game g"
  shows "\<exists>g'. Update i g = Some g'"
proof (cases "isGameOver g")
  case True
  then show ?thesis by (simp add: Update_over)
next
  case over: False
  show ?thesis
  proof (cases "started g \<or> jump i")
    case True
    from Update_playing [OF assms over True] show ?thesis by simp
  next
    case False
    with over show ?thesis by (simp add: Update_waiting waiting_def)
  qed
qed

subsection \<open>Collisions and the restart key\<close>

lemma period: "screenWidth sdiv pillarSpeed = 213"
  by (simp add: const_defs signed_divide_int_def)

lemma smod_eq_0_iff: "k smod l = 0 \<longleftrightarrow> l dvd k" for k l :: int
proof -
  have "k smod l = 0 \<longleftrightarrow> \<bar>k\<bar> mod \<bar>l\<bar> = 0"
    by (cases "k = 0") (simp_all add: signed_modulo_int_def sgn_if)
  also have "\<dots> \<longleftrightarrow> l dvd k"
    by (simp only: mod_eq_0_iff_dvd abs_dvd_iff dvd_abs_iff)
  finally show ?thesis .
qed

lemma spawn_due_iff: "spawn_due g \<longleftrightarrow> 213 dvd (frameCount g + 1)"
  by (simp only: spawn_due_def period smod_eq_0_iff)

lemma new_pillar_misses: "\<not> hits b (advance (NewPillar r))"
  by (simp add: hits_def advance_def NewPillar_def Let_def const_defs)

lemma new_pillar_not_crossed: "\<not> crossed (advance (NewPillar r))"
  by (simp add: crossed_def advance_def NewPillar_def Let_def const_defs)

lemma isGameOver_play_tick_collides:
  assumes "wf_game g"
  shows "isGameOver (play_tick i g) \<longleftrightarrow> collides i g"
  unfolding isGameOver_play_tick [OF assms]
  by (auto simp: collides_def seq_in_def new_pillar_misses)

lemma Update_playing':
  assumes "wf_game g" and "\<not> isGameOver g" and "started g \<or> jump i"
  shows "Update i g =
    Some (if collides i g \<and> keyEnter i then Reset (play_tick i g) else play_tick i g)"
  unfolding isGameOver_play_tick_collides [OF assms(1), symmetric]
  by (rule Update_playing [OF assms])

lemma reachable_wf: "reachable g \<Longrightarrow> wf_game g"
  by (drule reachable_invar) (simp add: invar_def)


lemma Reset_simps [simp]:
  "birdY (Reset g) = 315" "birdDY (Reset g) = 0" "pillars (Reset g) = []"
  "frameCount (Reset g) = 0" "\<not> isGameOver (Reset g)" "score (Reset g) = 0"
  "\<not> started (Reset g)" "heap (Reset g) = heap g"
  by (simp_all add: Reset_def screenHeight_def signed_divide_int_def)

lemma waiting_no_collision:
  assumes "reachable g" and "waiting g"
  shows "\<not> collides i g"
  using reachable_invar [OF assms(1)] assms(2)
  by (simp add: invar_def waiting_def collides_def pillar_seq_def)

lemma spawned_keyEnter [simp]: "spawned (i\<lparr>keyEnter := b\<rparr>) g = spawned i g"
  by (simp add: spawned_def)

lemma jump_keyEnter [simp]: "jump (i\<lparr>keyEnter := b\<rparr>) = jump i"
  by (simp add: jump_def)

lemma play_tick_keyEnter [simp]: "play_tick (i\<lparr>keyEnter := b\<rparr>) g = play_tick i g"
  unfolding play_tick_def by (simp only: spawned_keyEnter jump_keyEnter)

lemma collides_keyEnter [simp]: "collides (i\<lparr>keyEnter := b\<rparr>) g = collides i g"
  by (simp add: collides_def jump_def)

lemma Update_keyEnter:
  assumes "wf_game g" and "\<not> isGameOver g"
  shows "Update (i\<lparr>keyEnter := b\<rparr>) g =
    (if started g \<or> jump i
     then Some (if collides i g \<and> b then Reset (play_tick i g) else play_tick i g)
     else Some g)"
proof (cases "started g \<or> jump i")
  case True
  then have "started g \<or> jump (i\<lparr>keyEnter := b\<rparr>)" by simp
  from Update_playing' [OF assms this] True show ?thesis by simp
next
  case False
  with assms(2) have "waiting g" and "\<not> jump (i\<lparr>keyEnter := b\<rparr>)"
    by (simp_all add: waiting_def)
  from Update_waiting [OF this] False show ?thesis by simp
qed

subsection \<open>Runs, and stretches of uneventful ticks\<close>

lemma run_append:
  "run (is @ js) g = (case run is g of None \<Rightarrow> None | Some g' \<Rightarrow> run js g')"
  by (induction "is" arbitrary: g) (auto split: option.splits)

lemma run_snoc:
  "run is g = Some g' \<Longrightarrow> run (is @ [i]) g = Update i g'"
  by (simp add: run_append split: option.splits)

lemma reachable_run:
  "reachable g \<Longrightarrow> list_all valid_input is \<Longrightarrow> run is g = Some g' \<Longrightarrow> reachable g'"
proof (induction "is" arbitrary: g)
  case Nil
  then show ?case by simp
next
  case (Cons i "is")
  then show ?case
    by (auto split: option.splits intro: reachable_step)
qed


lemma quiet_tick:
  assumes "wf_game g" and "playing g" and "\<not> spawn_due g"
    and "\<forall>p\<in>set (pillar_seq g).
           \<not> crossed (advance p) \<and>
           \<not> hits (birdY g + (if jump i then - 2 else birdDY g + 0.1)) (advance p)"
  shows "Update i g =
    Some (g\<lparr>birdY := birdY g + (if jump i then - 2 else birdDY g + 0.1),
            birdDY := (if jump i then - 2 else birdDY g + 0.1),
            frameCount := frameCount g + 1,
            heap := advance_all (pillars g) (heap g)\<rparr>)"
proof -
  from assms(2) have no: "\<not> isGameOver g" and st: "started g"
    by (simp_all add: playing_def)
  have nc: "\<not> collides i g"
    using assms(4) by (simp add: collides_def)
  have r: "ranged g = pillars g" and s: "spawned i g = heap g"
    using assms(3) by (simp_all add: ranged_def spawned_def)
  have "filter (\<lambda>a. crossed (advance (heap g ! a))) (pillars g) = []"
    using assms(4) by (simp add: filter_empty_conv pillar_seq_def)
  then have "play_tick i g =
      g\<lparr>birdY := birdY g + (if jump i then - 2 else birdDY g + 0.1),
        birdDY := (if jump i then - 2 else birdDY g + 0.1),
        frameCount := frameCount g + 1,
        heap := advance_all (pillars g) (heap g)\<rparr>"
    using assms(4) no st unfolding play_tick_def r s Let_def
    by (intro Game.equality) (simp_all add: pillar_seq_def)
  with Update_playing' [OF assms(1) no, of i] st nc show ?thesis by simp
qed

lemma no_spawn_between:
  fixes a :: int
  assumes "a mod 213 + int (Suc n) < 213"
  shows "\<not> 213 dvd (a + int n + 1)"
proof
  assume "213 dvd (a + int n + 1)"
  then have "(a + int n + 1) mod 213 = 0"
    by (rule dvd_imp_mod_0)
  moreover have "(a + int n + 1) mod 213 = (a mod 213 + (int n + 1)) mod 213"
    by (simp only: mod_add_left_eq add.assoc)
  moreover have "(a mod 213 + (int n + 1)) mod 213 = a mod 213 + (int n + 1)"
  proof (rule mod_pos_pos_trivial)
    have "0 \<le> a mod 213" by simp
    then show "0 \<le> a mod 213 + (int n + 1)" by linarith
    show "a mod 213 + (int n + 1) < 213" using assms by simp
  qed
  moreover have "0 \<le> a mod 213" by simp
  ultimately show False by linarith
qed

lemma length_shift_live [simp]: "length (shift_live n g) = length (heap g)"
  by (simp add: shift_live_def)

lemma nth_shift_live:
  "j < length (heap g) \<Longrightarrow>
   shift_live n g ! j =
     (if j \<in> set (pillars g) then (heap g ! j)\<lparr>x := x (heap g ! j) - pillarSpeed * int n\<rparr>
      else heap g ! j)"
  by (simp add: shift_live_def)

lemma shift_live_0: "shift_live 0 g = heap g"
  by (simp add: list_eq_iff_nth_eq nth_shift_live)

lemma advance_shift_live:
  assumes "wf_game g"
  shows "advance_all (pillars g) (shift_live n g) = shift_live (Suc n) g"
  using assms
  by (auto simp: list_eq_iff_nth_eq nth_shift_live nth_advance_all wf_game_def advance_def
        algebra_simps)

lemma pillar_seq_shift:
  assumes "wf_game g" and "pillars g' = pillars g" and "heap g' = shift_live n g"
  shows "pillar_seq g' = map (\<lambda>p. p\<lparr>x := x p - pillarSpeed * int n\<rparr>) (pillar_seq g)"
  using assms by (simp add: pillar_seq_def wf_game_def nth_shift_live)

lemma wf_shift:
  assumes "wf_game g" and "pillars g' = pillars g" and "heap g' = shift_live n g"
  shows "wf_game g'"
  using assms by (simp add: wf_game_def)

lemma glide_simps [simp]:
  "birdY (glide n g) = birdY g - 2 * real n"
  "birdDY (glide n g) = (if n = 0 then birdDY g else - 2)"
  "pillars (glide n g) = pillars g"
  "frameCount (glide n g) = frameCount g + int n"
  "isGameOver (glide n g) = isGameOver g"
  "score (glide n g) = score g"
  "started (glide n g) = started g"
  "heap (glide n g) = shift_live n g"
  by (simp_all add: glide_def)

lemma fall_simps [simp]:
  "birdY (fall n g) = birdY g + real n * birdDY g + real n * (real n + 1) / 20"
  "birdDY (fall n g) = birdDY g + real n / 10"
  "pillars (fall n g) = pillars g"
  "frameCount (fall n g) = frameCount g + int n"
  "isGameOver (fall n g) = isGameOver g"
  "score (fall n g) = score g"
  "started (fall n g) = started g"
  "heap (fall n g) = shift_live n g"
  by (simp_all add: fall_def)

lemma glide_step:
  assumes wf: "wf_game g" and pl: "playing g" and j: "jump i"
    and fc: "frameCount g mod 213 + int (Suc n) < 213"
    and safe: "\<forall>p\<in>set (pillar_seq g).
        - pillarWidth \<le> x p - pillarSpeed * int (Suc n) \<and>
        (birdSize \<le> x p - pillarSpeed * int (Suc n) \<or>
         of_int (y p) \<le> birdY g - 2 * real (Suc n) \<and> birdY g - 2 \<le> of_int (y p + pillarGap))"
  shows "Update i (glide n g) = Some (glide (Suc n) g)"
proof -
  have wf': "wf_game (glide n g)"
    by (rule wf_shift [OF wf]) simp_all
  have pl': "playing (glide n g)"
    using pl by (simp add: playing_def)
  have sp: "\<not> spawn_due (glide n g)"
    using no_spawn_between [OF fc] by (simp add: spawn_due_iff)
  have seq: "pillar_seq (glide n g)
             = map (\<lambda>p. p\<lparr>x := x p - pillarSpeed * int n\<rparr>) (pillar_seq g)"
    by (rule pillar_seq_shift [OF wf]) simp_all
  have quiet: "\<forall>p\<in>set (pillar_seq (glide n g)).
           \<not> crossed (advance p) \<and>
           \<not> hits (birdY (glide n g) + (if jump i then - 2 else birdDY (glide n g) + 0.1))
                (advance p)"
    unfolding seq using safe j
    by (auto simp: crossed_def hits_def advance_def algebra_simps)
  have "glide n g\<lparr>birdY := birdY (glide n g) + (if jump i then - 2 else birdDY (glide n g) + 0.1),
            birdDY := (if jump i then - 2 else birdDY (glide n g) + 0.1),
            frameCount := frameCount (glide n g) + 1,
            heap := advance_all (pillars (glide n g)) (heap (glide n g))\<rparr> = glide (Suc n) g"
    using j advance_shift_live [OF wf, of n]
    by (intro Game.equality) simp_all
  with quiet_tick [OF wf' pl' sp quiet] show ?thesis by simp
qed

lemma glide_run:
  assumes wf: "wf_game g" and pl: "playing g" and j: "jump i"
    and fc: "frameCount g mod 213 + int n < 213"
    and safe: "\<forall>p\<in>set (pillar_seq g).
        - pillarWidth \<le> x p - pillarSpeed * int n \<and>
        (birdSize \<le> x p - pillarSpeed * int n \<or>
         of_int (y p) \<le> birdY g - 2 * real n \<and> birdY g - 2 \<le> of_int (y p + pillarGap))"
  shows "run (replicate n i) g = Some (glide n g)"
  using fc safe
proof (induction n)
  case 0
  have "glide 0 g = g"
    by (intro Game.equality) (simp_all add: shift_live_0)
  then show ?case by simp
next
  case (Suc n)
  have "run (replicate n i) g = Some (glide n g)"
  proof (rule Suc.IH)
    show "frameCount g mod 213 + int n < 213"
      using Suc.prems(1) by simp
    show "\<forall>p\<in>set (pillar_seq g).
        - pillarWidth \<le> x p - pillarSpeed * int n \<and>
        (birdSize \<le> x p - pillarSpeed * int n \<or>
         of_int (y p) \<le> birdY g - 2 * real n \<and> birdY g - 2 \<le> of_int (y p + pillarGap))"
      using Suc.prems(2) by (auto simp: pillarSpeed_def algebra_simps)
  qed
  then have "run (replicate n i @ [i]) g = Update i (glide n g)"
    by (rule run_snoc)
  also have "\<dots> = Some (glide (Suc n) g)"
    by (rule glide_step [OF wf pl j Suc.prems])
  finally show ?case
    by (simp only: replicate_append_same replicate_Suc)
qed

lemma fall_step:
  assumes wf: "wf_game g" and pl: "playing g" and j: "\<not> jump i"
    and fc: "frameCount g mod 213 + int (Suc n) < 213"
    and safe: "\<forall>p\<in>set (pillar_seq g). birdSize \<le> x p - pillarSpeed * int (Suc n)"
  shows "Update i (fall n g) = Some (fall (Suc n) g)"
proof -
  have wf': "wf_game (fall n g)"
    by (rule wf_shift [OF wf]) simp_all
  have pl': "playing (fall n g)"
    using pl by (simp add: playing_def)
  have sp: "\<not> spawn_due (fall n g)"
    using no_spawn_between [OF fc] by (simp add: spawn_due_iff)
  have seq: "pillar_seq (fall n g)
             = map (\<lambda>p. p\<lparr>x := x p - pillarSpeed * int n\<rparr>) (pillar_seq g)"
    by (rule pillar_seq_shift [OF wf]) simp_all
  have quiet: "\<forall>p\<in>set (pillar_seq (fall n g)).
           \<not> crossed (advance p) \<and>
           \<not> hits (birdY (fall n g) + (if jump i then - 2 else birdDY (fall n g) + 0.1))
                (advance p)"
    unfolding seq using safe
    by (auto simp: crossed_def hits_def advance_def algebra_simps birdSize_def pillarWidth_def)
  have "fall n g\<lparr>birdY := birdY (fall n g) + (if jump i then - 2 else birdDY (fall n g) + 0.1),
            birdDY := (if jump i then - 2 else birdDY (fall n g) + 0.1),
            frameCount := frameCount (fall n g) + 1,
            heap := advance_all (pillars (fall n g)) (heap (fall n g))\<rparr> = fall (Suc n) g"
    using j advance_shift_live [OF wf, of n]
    by (intro Game.equality) (simp_all add: field_simps)
  with quiet_tick [OF wf' pl' sp quiet] show ?thesis by simp
qed

lemma fall_run:
  assumes wf: "wf_game g" and pl: "playing g" and j: "\<not> jump i"
    and fc: "frameCount g mod 213 + int n < 213"
    and safe: "\<forall>p\<in>set (pillar_seq g). birdSize \<le> x p - pillarSpeed * int n"
  shows "run (replicate n i) g = Some (fall n g)"
  using fc safe
proof (induction n)
  case 0
  have "fall 0 g = g"
    by (intro Game.equality) (simp_all add: shift_live_0)
  then show ?case by simp
next
  case (Suc n)
  have "run (replicate n i) g = Some (fall n g)"
  proof (rule Suc.IH)
    show "frameCount g mod 213 + int n < 213"
      using Suc.prems(1) by simp
    show "\<forall>p\<in>set (pillar_seq g). birdSize \<le> x p - pillarSpeed * int n"
      using Suc.prems(2) by (auto simp: pillarSpeed_def algebra_simps)
  qed
  then have "run (replicate n i @ [i]) g = Update i (fall n g)"
    by (rule run_snoc)
  also have "\<dots> = Some (fall (Suc n) g)"
    by (rule fall_step [OF wf pl j Suc.prems])
  finally show ?case
    by (simp only: replicate_append_same replicate_Suc)
qed

subsection \<open>One tick on the sequence of pillars\<close>

lemma tl_crossing_free:
  assumes "invar g"
  shows "\<forall>q\<in>set (tl (pillar_seq g)). \<not> crossed (advance q)"
proof (cases "pillar_seq g")
  case Nil
  then show ?thesis by simp
next
  case (Cons p ps)
  with assms have "\<forall>q\<in>set ps. x p + pillarSpeed \<le> x q" and "- pillarWidth \<le> x p"
    by (simp_all add: invar_def)
  then show ?thesis
    using Cons by (auto simp: crossed_def advance_def)
qed

lemma crossing_is_front:
  assumes "invar g" and "p \<in> set (pillar_seq g)" and "crossed (advance p)"
  shows "pillar_seq g \<noteq> [] \<and> p = hd (pillar_seq g)"
proof (cases "pillar_seq g")
  case Nil
  with assms(2) show ?thesis by simp
next
  case (Cons q qs)
  with tl_crossing_free [OF assms(1)] assms(2,3) show ?thesis by auto
qed

lemma pillar_seq_step:
  assumes "invar g"
  shows "pillar_seq (play_tick i g) =
     (if pillar_seq g \<noteq> [] \<and> crossed (advance (hd (pillar_seq g)))
      then map advance (tl (pillar_seq g)) else map advance (pillar_seq g))
     @ (if spawn_due g then [advance (NewPillar (randIntn i))] else [])"
    and "score (play_tick i g) =
     score g + (if pillar_seq g \<noteq> [] \<and> crossed (advance (hd (pillar_seq g))) then 1 else 0)"
proof -
  from assms have wf: "wf_game g" by (simp add: invar_def)
  let ?new = "if spawn_due g then [advance (NewPillar (randIntn i))] else []"
  have L: "map advance (seq_in i g) = map advance (pillar_seq g) @ ?new"
    by (simp add: seq_in_def)
  have F: "filter crossed (map advance (seq_in i g)) =
     (if pillar_seq g \<noteq> [] \<and> crossed (advance (hd (pillar_seq g)))
      then [advance (hd (pillar_seq g))] else [])"
  proof (cases "pillar_seq g")
    case Nil
    then show ?thesis by (simp add: L new_pillar_not_crossed)
  next
    case (Cons q qs)
    with tl_crossing_free [OF assms] have "filter (\<lambda>p. crossed (advance p)) qs = []"
      by (simp add: filter_empty_conv)
    with Cons show ?thesis
      by (simp add: L new_pillar_not_crossed filter_map comp_def)
  qed
  show "pillar_seq (play_tick i g) =
     (if pillar_seq g \<noteq> [] \<and> crossed (advance (hd (pillar_seq g)))
      then map advance (tl (pillar_seq g)) else map advance (pillar_seq g)) @ ?new"
    by (simp only: pillar_seq_play_tick [OF wf] F) (cases "pillar_seq g", simp_all add: L)
  show "score (play_tick i g) =
     score g + (if pillar_seq g \<noteq> [] \<and> crossed (advance (hd (pillar_seq g))) then 1 else 0)"
    by (simp only: score_play_tick [OF wf] F) simp
qed


lemma crossing_iff_front:
  assumes "invar g"
  shows "(\<exists>p\<in>set (pillar_seq g). x p - pillarSpeed < - pillarWidth) \<longleftrightarrow>
         pillar_seq g \<noteq> [] \<and> crossed (advance (hd (pillar_seq g)))"
proof
  assume "\<exists>p\<in>set (pillar_seq g). x p - pillarSpeed < - pillarWidth"
  then obtain p where "p \<in> set (pillar_seq g)" and "crossed (advance p)"
    by (auto simp: crossed_def advance_def)
  with crossing_is_front [OF assms] show "pillar_seq g \<noteq> [] \<and> crossed (advance (hd (pillar_seq g)))"
    by auto
next
  assume "pillar_seq g \<noteq> [] \<and> crossed (advance (hd (pillar_seq g)))"
  then show "\<exists>p\<in>set (pillar_seq g). x p - pillarSpeed < - pillarWidth"
    by (auto simp: crossed_def advance_def intro!: bexI [of _ "hd (pillar_seq g)"])
qed

lemma strict_sorted_x:
  assumes "invar g"
  shows "sorted_wrt (<) (map x (pillar_seq g))"
proof -
  from assms have "sorted_wrt (\<lambda>p q. x p + pillarSpeed \<le> x q) (pillar_seq g)"
    by (simp add: invar_def)
  then have "sorted_wrt (\<lambda>p q. x p < x q) (pillar_seq g)"
    by (rule sorted_wrt_mono_rel [rotated]) (simp add: pillarSpeed_def)
  then show ?thesis by (simp add: sorted_wrt_map)
qed

lemma sorted_between_hd_last:
  fixes f :: "'a \<Rightarrow> int"
  assumes "sorted_wrt (<) (map f ps)" and "p \<in> set ps"
  shows "f (hd ps) \<le> f p \<and> f p \<le> f (last ps)"
  using assms
proof (induction ps)
  case Nil
  then show ?case by simp
next
  case (Cons q qs)
  show ?case
  proof (cases "qs = []")
    case True
    with Cons.prems show ?thesis by simp
  next
    case False
    then have l: "last qs \<in> set qs" by simp
    from Cons.prems(1) have lt: "\<forall>r\<in>set qs. f q < f r" and s: "sorted_wrt (<) (map f qs)"
      by simp_all
    show ?thesis
    proof (cases "p = q")
      case True
      with lt l False show ?thesis by (auto simp: less_imp_le)
    next
      case False
      with Cons.prems(2) have "p \<in> set qs" by simp
      with Cons.IH [OF s] lt \<open>qs \<noteq> []\<close> show ?thesis by (auto simp: less_imp_le)
    qed
  qed
qed

lemma counters_grow_slowly:
  assumes "reachable g" and "Update i g = Some g'"
  shows "frameCount g' \<le> frameCount g + 1 \<and> score g' \<le> score g + 1"
proof (cases "isGameOver g")
  case True
  with assms reachable_invar [OF assms(1)] show ?thesis
    by (auto simp: Update_over invar_def split: if_splits)
next
  case over: False
  from assms(1) have inv: "invar g" by (rule reachable_invar)
  then have wf: "wf_game g" by (simp add: invar_def)
  show ?thesis
  proof (cases "started g \<or> jump i")
    case True
    from Update_playing' [OF wf over True] assms(2) inv pillar_seq_step(2) [OF inv, of i]
    show ?thesis by (auto simp: invar_def split: if_splits)
  next
    case False
    with over assms(2) show ?thesis by (simp add: Update_waiting waiting_def)
  qed
qed

subsection \<open>Allocations along a run\<close>





subsection \<open>The concrete game\<close>

lemmas tick_defs = Update_def pillar_body_def deref_def NewPillar_def Reset_def const_defs
  Let_def signed_divide_int_def signed_modulo_int_def hold_def idle_def confirm_def
  playing_state_def

lemmas phase_defs = glide_def fall_def shift_live_def wf_game_def playing_def pillar_seq_def
  jump_def const_defs hold_def idle_def playing_state_def

lemma tick_1: "Update hold newGame = Some (playing_state (- 2) (- 2) [] 1 0 [])"
  by (simp add: tick_defs newGame_def)

lemma ticks_2_212:
  "run (replicate 211 hold) (playing_state (- 2) (- 2) [] 1 0 [])
   = Some (playing_state (- 424) (- 2) [] 212 0 [])"
  by (subst glide_run) (simp_all add: phase_defs)

lemma tick_213:
  "Update hold (playing_state (- 424) (- 2) [] 212 0 [])
   = Some (playing_state (- 426) (- 2) [0] 213 0 [\<lparr>x = 637, y = 7\<rparr>])"
  by (simp add: tick_defs)

lemma ticks_214_271:
  "run (replicate 58 hold) (playing_state (- 426) (- 2) [0] 213 0 [\<lparr>x = 637, y = 7\<rparr>])
   = Some (playing_state (- 542) (- 2) [0] 271 0 [\<lparr>x = 463, y = 7\<rparr>])"
  by (subst glide_run) (simp_all add: phase_defs)

lemma ticks_272_412:
  "run (replicate 141 idle) (playing_state (- 542) (- 2) [0] 271 0 [\<lparr>x = 463, y = 7\<rparr>])
   = Some (playing_state (1771 / 10) (121 / 10) [0] 412 0 [\<lparr>x = 40, y = 7\<rparr>])"
  by (subst fall_run) (simp_all add: phase_defs)

lemma ticks_413_425:
  "run (replicate 13 hold) (playing_state (1771 / 10) (121 / 10) [0] 412 0 [\<lparr>x = 40, y = 7\<rparr>])
   = Some before_spawn"
  by (subst glide_run) (simp_all add: phase_defs before_spawn_def)

lemma tick_426:
  "Update hold before_spawn
   = Some (playing_state (1491 / 10) (- 2) [0, 1] 426 0 [\<lparr>x = - 2, y = 7\<rparr>, \<lparr>x = 637, y = 7\<rparr>])"
  by (simp add: tick_defs before_spawn_def)

lemma ticks_427_492:
  "run (replicate 66 hold)
     (playing_state (1491 / 10) (- 2) [0, 1] 426 0 [\<lparr>x = - 2, y = 7\<rparr>, \<lparr>x = 637, y = 7\<rparr>])
   = Some before_crossing"
  by (subst glide_run) (simp_all add: phase_defs before_crossing_def)

lemma tick_493:
  "Update hold before_crossing
   = Some (playing_state (151 / 10) (- 2) [1] 493 1 [\<lparr>x = - 203, y = 7\<rparr>, \<lparr>x = 436, y = 7\<rparr>])"
  by (simp add: tick_defs before_crossing_def)

lemma ticks_494_625:
  "run (replicate 132 hold)
     (playing_state (151 / 10) (- 2) [1] 493 1 [\<lparr>x = - 203, y = 7\<rparr>, \<lparr>x = 436, y = 7\<rparr>])
   = Some before_collision"
  by (subst glide_run) (simp_all add: phase_defs before_collision_def)

lemma run_to_spawn: "run ticks_to_spawn newGame = Some before_spawn"
  unfolding ticks_to_spawn_def
  by (simp only: run.simps run_append tick_1 ticks_2_212 tick_213 ticks_214_271 ticks_272_412
        ticks_413_425 option.case)

lemma run_to_crossing: "run ticks_to_crossing newGame = Some before_crossing"
  unfolding ticks_to_crossing_def
  by (simp only: run.simps run_append run_to_spawn tick_426 ticks_427_492 option.case)

lemma run_to_collision: "run ticks_to_collision newGame = Some before_collision"
  unfolding ticks_to_collision_def
  by (simp only: run.simps run_append run_to_crossing tick_493 ticks_494_625 option.case)

lemma valid_ticks:
  "list_all valid_input ticks_to_spawn"
  "list_all valid_input ticks_to_crossing"
  "list_all valid_input ticks_to_collision"
  by (simp_all add: ticks_to_spawn_def ticks_to_crossing_def ticks_to_collision_def list_all_iff
        valid_input_def hold_def idle_def const_defs)

lemma reachable_before_spawn: "reachable before_spawn"
  by (rule reachable_run [OF reachable_init valid_ticks(1) run_to_spawn])

lemma reachable_before_crossing: "reachable before_crossing"
  by (rule reachable_run [OF reachable_init valid_ticks(2) run_to_crossing])

lemma reachable_before_collision: "reachable before_collision"
  by (rule reachable_run [OF reachable_init valid_ticks(3) run_to_collision])

lemma playing_before_spawn: "playing before_spawn"
  by (simp add: playing_def before_spawn_def playing_state_def)

lemma playing_before_crossing: "playing before_crossing"
  by (simp add: playing_def before_crossing_def playing_state_def)

lemma playing_before_collision: "playing before_collision"
  by (simp add: playing_def before_collision_def playing_state_def)

lemma valid_keys: "valid_input hold" "valid_input idle" "valid_input confirm"
  by (simp_all add: valid_input_def hold_def idle_def confirm_def const_defs)

lemma Update_hold_before_collision: "Update hold before_collision = Some crashed"
  by (simp add: tick_defs before_collision_def crashed_def)

lemma Update_confirm_before_collision: "Update confirm before_collision = Some restarted"
  by (simp add: tick_defs before_collision_def restarted_def)

lemma reachable_crashed: "reachable crashed"
  by (rule reachable_step [OF reachable_before_collision valid_keys(1) Update_hold_before_collision])

lemma reachable_restarted: "reachable restarted"
  by (rule reachable_step [OF reachable_before_collision valid_keys(3)
        Update_confirm_before_collision])

lemma collides_before_collision:
  "collides hold before_collision" "collides idle before_collision"
  "collides confirm before_collision"
  by (simp_all add: collides_def hits_def advance_def pillar_seq_def before_collision_def
        playing_state_def jump_def hold_def idle_def confirm_def const_defs)

lemma not_collides_before_crossing:
  "\<not> collides hold before_crossing" "\<not> collides idle before_crossing"
  by (simp_all add: collides_def hits_def advance_def pillar_seq_def before_crossing_def
        playing_state_def jump_def hold_def idle_def const_defs)

section \<open>The claims\<close>







text \<open>
  C3. The claim: at game start, before any tick, the bird's vertical position is
  \<open>screenHeight / 2\<close> and its velocity is 0, the values that \<^verbatim>\<open>Reset\<close> restores.

  The code: \<^verbatim>\<open>main\<close> builds the state with Go's zero values, so the bird starts at
  height 0, while \<^verbatim>\<open>Reset\<close> puts it at 315. The velocity is 0 in both.
\<close>

theorem initial_bird_differs_from_Reset:
  "birdY newGame = 0 \<and> birdDY newGame = 0 \<and>
   birdY (Reset newGame) = 315 \<and> birdDY (Reset newGame) = 0 \<and>
   screenHeight sdiv 2 = 315 \<and>
   birdY newGame \<noteq> of_int (screenHeight sdiv 2)"
  by (simp add: newGame_def Reset_def screenHeight_def signed_divide_int_def)

text \<open>
  C4. The claim: when \<^verbatim>\<open>Update\<close> sees the restart key while the game is over, the state
  after the tick has the bird at \<open>screenHeight / 2\<close> with velocity 0, no pillars, score
  0, frame counter 0 and both flags cleared; the restart key has no effect in the
  waiting and in the playing state.

  The first part and the waiting state are as claimed. In the playing state the key
  decides what a colliding tick ends in, because the test for the key follows the
  collision test in the same call.

  As amended: the first part as claimed; the restart key has no effect in the waiting
  state, and none on a tick of the playing state that ends without a collision; on a
  tick of the playing state that ends in a collision, the state after the tick is the
  waiting state if the key is down and the game-over state if it is not.
\<close>

theorem restart_only_from_game_over:
  "(isGameOver g1 \<and> keyEnter i1 \<longrightarrow>
      (\<exists>g'. Update i1 g1 = Some g' \<and>
         birdY g' = of_int (screenHeight sdiv 2) \<and> birdDY g' = 0 \<and> pillars g' = [] \<and>
         score g' = 0 \<and> frameCount g' = 0 \<and> \<not> started g' \<and> \<not> isGameOver g')) \<and>
   (reachable g2 \<and> waiting g2 \<longrightarrow>
      Update (i2\<lparr>keyEnter := True\<rparr>) g2 = Update (i2\<lparr>keyEnter := False\<rparr>) g2) \<and>
   (reachable g3 \<and> playing g3 \<and> \<not> collides i3 g3 \<longrightarrow>
      Update (i3\<lparr>keyEnter := True\<rparr>) g3 = Update (i3\<lparr>keyEnter := False\<rparr>) g3) \<and>
   (reachable g4 \<and> playing g4 \<and> collides i4 g4 \<longrightarrow>
      (\<exists>g'. Update (i4\<lparr>keyEnter := True\<rparr>) g4 = Some g' \<and> waiting g') \<and>
      (\<exists>g'. Update (i4\<lparr>keyEnter := False\<rparr>) g4 = Some g' \<and> isGameOver g'))"
proof (intro conjI impI)
  assume "isGameOver g1 \<and> keyEnter i1"
  then show "\<exists>g'. Update i1 g1 = Some g' \<and>
         birdY g' = of_int (screenHeight sdiv 2) \<and> birdDY g' = 0 \<and> pillars g' = [] \<and>
         score g' = 0 \<and> frameCount g' = 0 \<and> \<not> started g' \<and> \<not> isGameOver g'"
    by (simp add: Update_over screenHeight_def signed_divide_int_def)
next
  assume a: "reachable g2 \<and> waiting g2"
  then have "wf_game g2" and "\<not> isGameOver g2"
    by (simp_all add: reachable_wf waiting_def)
  from Update_keyEnter [OF this] waiting_no_collision [of g2 i2] a
  show "Update (i2\<lparr>keyEnter := True\<rparr>) g2 = Update (i2\<lparr>keyEnter := False\<rparr>) g2"
    by simp
next
  assume a: "reachable g3 \<and> playing g3 \<and> \<not> collides i3 g3"
  then have "wf_game g3" and "\<not> isGameOver g3"
    by (simp_all add: reachable_wf playing_def)
  from Update_keyEnter [OF this] a
  show "Update (i3\<lparr>keyEnter := True\<rparr>) g3 = Update (i3\<lparr>keyEnter := False\<rparr>) g3"
    by simp
next
  assume a: "reachable g4 \<and> playing g4 \<and> collides i4 g4"
  then have wf: "wf_game g4" and no: "\<not> isGameOver g4" and st: "started g4"
    by (simp_all add: reachable_wf playing_def)
  from Update_keyEnter [OF wf no] a st
  show "\<exists>g'. Update (i4\<lparr>keyEnter := True\<rparr>) g4 = Some g' \<and> waiting g'"
    by (simp add: waiting_def)
  from Update_keyEnter [OF wf no] a st isGameOver_play_tick_collides [OF wf, of i4]
  show "\<exists>g'. Update (i4\<lparr>keyEnter := False\<rparr>) g4 = Some g' \<and> isGameOver g'"
    by simp
qed

theorem restart_only_from_game_over_witness:
  "isGameOver crashed \<and> keyEnter confirm \<and>
   (\<exists>g'. Update confirm crashed = Some g' \<and>
      birdY g' = 315 \<and> birdDY g' = 0 \<and> pillars g' = [] \<and>
      score g' = 0 \<and> frameCount g' = 0 \<and> \<not> started g' \<and> \<not> isGameOver g') \<and>
   reachable newGame \<and> waiting newGame \<and>
   Update (hold\<lparr>keyEnter := True\<rparr>) newGame = Update (hold\<lparr>keyEnter := False\<rparr>) newGame \<and>
   reachable before_crossing \<and> playing before_crossing \<and> \<not> collides hold before_crossing \<and>
   Update (hold\<lparr>keyEnter := True\<rparr>) before_crossing
     = Update (hold\<lparr>keyEnter := False\<rparr>) before_crossing \<and>
   reachable before_collision \<and> playing before_collision \<and> collides hold before_collision \<and>
   (\<exists>g'. Update (hold\<lparr>keyEnter := True\<rparr>) before_collision = Some g' \<and> waiting g') \<and>
   (\<exists>g'. Update (hold\<lparr>keyEnter := False\<rparr>) before_collision = Some g' \<and> isGameOver g')"
proof -
  have over: "isGameOver crashed \<and> keyEnter confirm"
    by (simp add: crashed_def confirm_def)
  have wait: "reachable newGame \<and> waiting newGame"
    using reachable_init by (simp add: waiting_def newGame_def)
  have quiet: "reachable before_crossing \<and> playing before_crossing \<and>
               \<not> collides hold before_crossing"
    by (simp add: reachable_before_crossing playing_before_crossing
          not_collides_before_crossing(1))
  have hit: "reachable before_collision \<and> playing before_collision \<and>
             collides hold before_collision"
    by (simp add: reachable_before_collision playing_before_collision
          collides_before_collision(1))
  from restart_only_from_game_over
         [of crashed confirm newGame hold before_crossing hold before_collision hold]
       over wait quiet hit
  show ?thesis
    by (simp add: screenHeight_def signed_divide_int_def)
qed

text \<open>The claim as stated fails on the same tick as for C1, in the playing state: the two
  inputs differ in the restart key only, and the states after the tick differ.\<close>

theorem restart_key_decides_colliding_tick:
  "reachable before_collision \<and> playing before_collision \<and>
   confirm = idle\<lparr>keyEnter := True\<rparr> \<and> \<not> keyEnter idle \<and>
   Update confirm before_collision = Some restarted \<and>
   Update idle before_collision \<noteq> Some restarted"
  by (simp add: reachable_before_collision playing_before_collision
        Update_confirm_before_collision)
     (simp add: tick_defs before_collision_def restarted_def)



text \<open>
  C6. The claim: on every tick of \<^verbatim>\<open>Update\<close> in the playing state the score grows by
  exactly 1 each time a pillar, after its move to the left, is below \<open>- pillarWidth\<close>,
  and changes at no other time; each such crossing removes that pillar, from the front
  of the sequence, so that a pillar is counted at most once.

  The loop does this. When the tick ends in a collision and the restart key is down,
  \<^verbatim>\<open>Reset\<close> then runs in the same call and sets the score to 0, whatever it was.

  As amended: on every tick of the playing state that does not end in a collision with
  the restart key down, if some pillar moves below \<open>- pillarWidth\<close> then it is the
  front pillar and the only one, the score grows by exactly 1 and the sequence after the
  tick is the rest, moved, followed by the pillar spawned in this tick if one is due;
  otherwise the score is unchanged and no pillar is removed. No pillar of the sequence
  after the tick is below \<open>- pillarWidth\<close>, so none can be counted again.
\<close>

theorem score_counts_crossings:
  assumes "reachable g" and "playing g" and "\<not> (collides i g \<and> keyEnter i)"
  shows "\<exists>g'. Update i g = Some g' \<and>
     (let new = (if (frameCount g + 1) smod (screenWidth sdiv pillarSpeed) = 0
                 then [advance (NewPillar (randIntn i))] else [])
      in if \<exists>p\<in>set (pillar_seq g). x p - pillarSpeed < - pillarWidth
         then score g' = score g + 1 \<and>
              pillar_seq g \<noteq> [] \<and>
              x (hd (pillar_seq g)) - pillarSpeed < - pillarWidth \<and>
              (\<forall>q\<in>set (tl (pillar_seq g)). \<not> x q - pillarSpeed < - pillarWidth) \<and>
              pillar_seq g' = map advance (tl (pillar_seq g)) @ new
         else score g' = score g \<and>
              pillar_seq g' = map advance (pillar_seq g) @ new) \<and>
     (\<forall>p\<in>set (pillar_seq g'). \<not> x p < - pillarWidth)"
proof -
  from assms(1) have inv: "invar g" by (rule reachable_invar)
  then have wf: "wf_game g" by (simp add: invar_def)
  from assms(2) have no: "\<not> isGameOver g" and st: "started g \<or> jump i"
    by (simp_all add: playing_def)
  from Update_playing' [OF wf no st] assms(3)
  have upd: "Update i g = Some (play_tick i g)" by simp
  have tl: "\<forall>q\<in>set (tl (pillar_seq g)). \<not> x q - pillarSpeed < - pillarWidth"
    using tl_crossing_free [OF inv] by (simp add: crossed_def advance_def)
  have front: "crossed (advance (hd (pillar_seq g))) \<longleftrightarrow>
               x (hd (pillar_seq g)) - pillarSpeed < - pillarWidth"
    by (simp add: crossed_def advance_def)
  have rest: "\<forall>p\<in>set (pillar_seq (play_tick i g)). \<not> x p < - pillarWidth"
    unfolding pillar_seq_step(1) [OF inv]
    using tl_crossing_free [OF inv] new_pillar_not_crossed [of "randIntn i"]
    by (cases "pillar_seq g") (auto simp: crossed_def)
  show ?thesis
    unfolding upd Let_def crossing_iff_front [OF inv]
    using pillar_seq_step [OF inv, of i] tl rest front
    by (simp add: spawn_due_def)
qed

theorem score_counts_crossings_witness:
  "reachable before_crossing \<and> playing before_crossing \<and>
   \<not> (collides hold before_crossing \<and> keyEnter hold) \<and>
   pillar_seq before_crossing = [\<lparr>x = - 200, y = 7\<rparr>, \<lparr>x = 439, y = 7\<rparr>] \<and>
   (\<exists>g'. Update hold before_crossing = Some g' \<and>
      score g' = score before_crossing + 1 \<and> pillar_seq g' = [\<lparr>x = 436, y = 7\<rparr>]) \<and>
   reachable before_spawn \<and> playing before_spawn \<and>
   \<not> (collides hold before_spawn \<and> keyEnter hold) \<and>
   (\<exists>g'. Update hold before_spawn = Some g' \<and>
      score g' = score before_spawn \<and>
      pillar_seq g' = [\<lparr>x = - 2, y = 7\<rparr>, \<lparr>x = 637, y = 7\<rparr>])"
proof -
  have k: "\<not> keyEnter hold" "randIntn hold = 7"
    by (simp_all add: hold_def)
  have c: "pillar_seq before_crossing = [\<lparr>x = - 200, y = 7\<rparr>, \<lparr>x = 439, y = 7\<rparr>]"
    "frameCount before_crossing = 492"
    by (simp_all add: pillar_seq_def before_crossing_def playing_state_def)
  have s: "pillar_seq before_spawn = [\<lparr>x = 1, y = 7\<rparr>]" "frameCount before_spawn = 425"
    by (simp_all add: pillar_seq_def before_spawn_def playing_state_def)
  have 1: "\<exists>g'. Update hold before_crossing = Some g' \<and>
      score g' = score before_crossing + 1 \<and> pillar_seq g' = [\<lparr>x = 436, y = 7\<rparr>]"
    using score_counts_crossings [OF reachable_before_crossing playing_before_crossing, of hold]
      k c
    by (auto simp: advance_def NewPillar_def const_defs signed_divide_int_def
          signed_modulo_int_def)
  have 2: "\<exists>g'. Update hold before_spawn = Some g' \<and>
      score g' = score before_spawn \<and>
      pillar_seq g' = [\<lparr>x = - 2, y = 7\<rparr>, \<lparr>x = 637, y = 7\<rparr>]"
    using score_counts_crossings [OF reachable_before_spawn playing_before_spawn, of hold] k s
    by (auto simp: advance_def NewPillar_def const_defs signed_divide_int_def
          signed_modulo_int_def)
  from 1 2 k c show ?thesis
    by (simp add: reachable_before_crossing playing_before_crossing reachable_before_spawn
          playing_before_spawn)
qed

text \<open>The claim as stated fails on the same tick as for C1: the score is 1, the only pillar
  moves from 40 to 37 and does not cross \<open>- pillarWidth\<close>, and the score after the tick
  is 0.\<close>

theorem score_reset_without_crossing:
  "reachable before_collision \<and> playing before_collision \<and>
   score before_collision = 1 \<and>
   pillar_seq before_collision = [\<lparr>x = 40, y = 7\<rparr>] \<and>
   \<not> 40 - pillarSpeed < - pillarWidth \<and>
   Update confirm before_collision = Some restarted \<and>
   score restarted = 0"
  by (simp add: reachable_before_collision playing_before_collision
        Update_confirm_before_collision)
     (simp add: pillar_seq_def before_collision_def playing_state_def restarted_def const_defs)

text \<open>
  C7. In every state reachable from the initial one by ticks of \<^verbatim>\<open>Update\<close>, the sequence
  of pillars is sorted by horizontal position: the front pillar has the smallest \<open>x\<close>
  and the last one, the newest, the largest. The positions are even strictly
  increasing. From such a state each operation keeps the order: appending the pillar
  that \<^verbatim>\<open>NewPillar\<close> builds, moving all pillars, removing the front one, and \<^verbatim>\<open>Reset\<close>,
  which empties the sequence. The proof is by the invariant \<open>invar\<close> (lemmas
  \<open>play_tick_invar\<close>, \<open>Reset_invar\<close>, \<open>Update_invar\<close>).
\<close>

theorem pillars_sorted_by_x:
  assumes "reachable g"
  shows "sorted_wrt (<) (map x (pillar_seq g)) \<and>
         (\<forall>p\<in>set (pillar_seq g).
            x (hd (pillar_seq g)) \<le> x p \<and> x p \<le> x (last (pillar_seq g))) \<and>
         sorted_wrt (<) (map x (pillar_seq g @ [NewPillar r])) \<and>
         sorted_wrt (<) (map x (map advance (pillar_seq g))) \<and>
         sorted_wrt (<) (map x (tl (pillar_seq g))) \<and>
         pillar_seq (Reset g) = []"
proof -
  from assms have inv: "invar g" by (rule reachable_invar)
  have s: "sorted_wrt (<) (map x (pillar_seq g))"
    by (rule strict_sorted_x [OF inv])
  have spawn: "sorted_wrt (<) (map x (pillar_seq g @ [NewPillar r]))"
    using s inv by (auto simp: sorted_wrt_append invar_def NewPillar_simps const_defs)
  have move: "sorted_wrt (<) (map x (map advance (pillar_seq g)))"
    using s by (simp add: sorted_wrt_map advance_def)
  have remove: "sorted_wrt (<) (map x (tl (pillar_seq g)))"
    using s by (cases "pillar_seq g") simp_all
  have reset: "pillar_seq (Reset g) = []"
    by (simp add: pillar_seq_def)
  from s sorted_between_hd_last [of x "pillar_seq g"] spawn move remove reset
  show ?thesis by blast
qed

theorem pillars_sorted_by_x_witness:
  "reachable before_crossing \<and>
   map x (pillar_seq before_crossing) = [- 200, 439] \<and>
   sorted_wrt (<) (map x (pillar_seq before_crossing)) \<and>
   x (hd (pillar_seq before_crossing)) \<le> x (last (pillar_seq before_crossing)) \<and>
   sorted_wrt (<) (map x (pillar_seq before_crossing @ [NewPillar 7])) \<and>
   sorted_wrt (<) (map x (map advance (pillar_seq before_crossing))) \<and>
   sorted_wrt (<) (map x (tl (pillar_seq before_crossing))) \<and>
   pillar_seq (Reset before_crossing) = []"
proof -
  have xs: "map x (pillar_seq before_crossing) = [- 200, 439]"
    by (simp add: pillar_seq_def before_crossing_def playing_state_def)
  then have "pillar_seq before_crossing \<noteq> []" by auto
  then have "last (pillar_seq before_crossing) \<in> set (pillar_seq before_crossing)"
    by (rule last_in_set)
  with pillars_sorted_by_x [OF reachable_before_crossing, of 7] xs reachable_before_crossing
  show ?thesis by blast
qed

text \<open>
  C8. The claim: \<^verbatim>\<open>Draw\<close> draws each pillar as two rectangles of width \<open>pillarWidth\<close>, one
  ending at the pillar's \<open>y\<close> and one starting at \<open>y + pillarGap\<close>, so that exactly the
  band \<open>[y, y + pillarGap]\<close>, the one that the collision test of \<^verbatim>\<open>Update\<close> treats as the
  gap, stays uncovered.

  The code: \<^verbatim>\<open>Draw\<close> puts the pillar image with its upper left corner at \<open>(x, y)\<close>, so
  that the first image begins at \<open>y\<close> and covers the top of the band, and puts it a second
  time at \<open>(x, y + pillarGap + pillarWidth)\<close>, that is 400 below \<open>y\<close>, not 200. The
  width drawn is that of the image; \<open>pillarWidth\<close> enters as a vertical offset only. The
  theorem evaluates the loop body for the pillar at \<open>(40, 7)\<close> and \<^verbatim>\<open>Draw\<close> on the state
  after 625 ticks of the concrete game.
\<close>

theorem draw_offsets_differ_from_gap:
  "draw_pillar p =
     [DrawImage pillarImage (of_int (x p), of_int (y p)),
      DrawImage pillarImage (of_int (x p), of_int (y p) + (of_int pillarGap + of_int pillarWidth))] \<and>
   draw_pillar \<lparr>x = 40, y = 7\<rparr> =
     [DrawImage pillarImage (40, 7), DrawImage pillarImage (40, 407)] \<and>
   Draw before_collision =
     Some [Fill 75 145 201 1,
           DrawImage birdImage (50, - 2489 / 10),
           DrawImage pillarImage (40, 7),
           DrawImage pillarImage (40, 407),
           DebugPrint (Sprintf ''Score: %d'' 1)] \<and>
   (407 :: real) = 7 + (of_int pillarGap + of_int pillarWidth) \<and>
   (407 :: real) \<noteq> 7 + of_int pillarGap"
  by (simp add: Draw_def draw_pillar_def Translate_def deref_def before_collision_def playing_state_def
        const_defs)

text \<open>
  C9. In every state reachable from the initial one by ticks of \<^verbatim>\<open>Update\<close>, if the
  game-over flag is set then the started flag is set: the machine is never at once not
  started and over.
\<close>

theorem game_over_implies_started:
  assumes "reachable g"
  shows "isGameOver g \<longrightarrow> started g"
  using reachable_invar [OF assms] by (simp add: invar_def)

theorem game_over_implies_started_witness:
  "reachable crashed \<and> isGameOver crashed \<and> started crashed"
proof -
  have "isGameOver crashed" by (simp add: crashed_def)
  moreover from game_over_implies_started [OF reachable_crashed] this have "started crashed" ..
  ultimately show ?thesis using reachable_crashed by simp
qed

text \<open>
  C10. When \<^verbatim>\<open>Update\<close> sees the jump input in the waiting state, the same tick starts the
  game and runs a full step of the playing state: after the tick the game is playing,
  the velocity is exactly \<open>- 2\<close>, the position has moved by \<open>- 2\<close>, and the frame counter
  is 1.
\<close>

theorem start_tick_is_a_jump_tick:
  assumes "reachable g" and "waiting g" and "keySpace i \<or> keyArrowUp i"
  shows "\<exists>g'. Update i g = Some g' \<and> playing g' \<and>
           birdDY g' = - 2 \<and> birdY g' = birdY g + (- 2) \<and> frameCount g' = 1"
proof -
  from assms have wf: "wf_game g" and "\<not> isGameOver g" and "started g \<or> jump i"
    by (simp_all add: reachable_wf waiting_def jump_def)
  from Update_playing' [OF this] waiting_no_collision [OF assms(1,2), of i]
    isGameOver_play_tick_collides [OF wf, of i] assms(3) reachable_invar [OF assms(1)] assms(2)
  show ?thesis
    by (simp add: jump_def playing_def invar_def waiting_def)
qed

theorem start_tick_is_a_jump_tick_witness:
  "reachable newGame \<and> waiting newGame \<and> (keySpace hold \<or> keyArrowUp hold) \<and>
   (\<exists>g'. Update hold newGame = Some g' \<and> playing g' \<and>
      birdDY g' = - 2 \<and> birdY g' = - 2 \<and> frameCount g' = 1) \<and>
   reachable restarted \<and> waiting restarted \<and>
   (\<exists>g'. Update hold restarted = Some g' \<and> playing g' \<and>
      birdDY g' = - 2 \<and> birdY g' = 313 \<and> frameCount g' = 1)"
proof -
  have k: "keySpace hold \<or> keyArrowUp hold" by (simp add: hold_def)
  have n: "waiting newGame" "birdY newGame = 0"
    by (simp_all add: waiting_def newGame_def)
  have r: "waiting restarted" "birdY restarted = 315"
    by (simp_all add: waiting_def restarted_def)
  from start_tick_is_a_jump_tick [OF reachable_init n(1) k]
       start_tick_is_a_jump_tick [OF reachable_restarted r(1) k] k n r
  show ?thesis
    by (simp add: reachable_init reachable_restarted)
qed

end
